theory Spec2Isabelle
  imports Complex_Main
begin

section \<open>The streaming-progress coordinator of the model comparison dashboard\<close>

text \<open>
  A shallow embedding of the coordinator in the streaming version of
  \<^verbatim>\<open>components/ModelComparison.tsx\<close>:
  the functions \<^verbatim>\<open>fetchComparisonData\<close>, \<^verbatim>\<open>stopComparison\<close>,
  \<^verbatim>\<open>resetComparison\<close>, \<^verbatim>\<open>runComparison\<close> (its server-sent-event read loop and
  its exception handlers) and the one-second interval of the \<^verbatim>\<open>useEffect\<close> hook.
  React state is a record; every \<^verbatim>\<open>setX(prev => ...)\<close> is a function from the old
  state to the new one, applied in the order the source queues them.
\<close>

subsection \<open>JavaScript values\<close>

text \<open>
  A JavaScript number is a rational or \<open>NaN\<close> (the infinities do not arise from the
  values the component handles). \<open>undefined\<close> is \<open>None\<close> of an option type.
\<close>

datatype jsnum = Num rat | NaN

text \<open>Truthiness, for \<^verbatim>\<open>x || fallback\<close> on an optional string and an optional number.\<close>

definition or_string :: "string option \<Rightarrow> string \<Rightarrow> string" where
  "or_string x fallback = (case x of None \<Rightarrow> fallback | Some s \<Rightarrow> if s = [] then fallback else s)"

definition or_number :: "rat option \<Rightarrow> rat \<Rightarrow> rat" where
  "or_number x fallback = (case x of None \<Rightarrow> fallback | Some n \<Rightarrow> if n = 0 then fallback else n)"

subsection \<open>Objects with ordered keys\<close>

text \<open>
  \<^verbatim>\<open>Record<string, V>\<close> is an association list in the order \<^verbatim>\<open>Object.keys\<close>
  enumerates: the keys that are array indices (canonical decimal numerals below
  \<open>2^32 - 1\<close>) first, ascending, then the other keys in the order they were created.
  Writing an existing key keeps its position.
\<close>

type_synonym 'v js_object = "(string \<times> 'v) list"

definition digit_val :: "char \<Rightarrow> int option" where
  "digit_val c = (let n = (of_char c :: int) in if 48 \<le> n \<and> n \<le> 57 then Some (n - 48) else None)"

fun digits_val :: "int \<Rightarrow> string \<Rightarrow> int option" where
  "digits_val acc [] = Some acc"
| "digits_val acc (c # cs) =
     (case digit_val c of None \<Rightarrow> None | Some d \<Rightarrow> digits_val (10 * acc + d) cs)"

definition array_index :: "string \<Rightarrow> int option" where
  "array_index k =
     (case k of
        [] \<Rightarrow> None
      | c # cs \<Rightarrow>
          if c = CHR ''0'' \<and> cs \<noteq> [] then None
          else (case digits_val 0 k of
                  None \<Rightarrow> None
                | Some n \<Rightarrow> if n < 4294967295 then Some n else None))"

fun obj_replace :: "string \<Rightarrow> 'v \<Rightarrow> 'v js_object \<Rightarrow> 'v js_object" where
  "obj_replace k v [] = []"
| "obj_replace k v ((k', v') # kvs) =
     (if k' = k then (k, v) # kvs else (k', v') # obj_replace k v kvs)"

fun obj_insert_index :: "int \<Rightarrow> string \<Rightarrow> 'v \<Rightarrow> 'v js_object \<Rightarrow> 'v js_object" where
  "obj_insert_index n k v [] = [(k, v)]"
| "obj_insert_index n k v ((k', v') # kvs) =
     (case array_index k' of
        None \<Rightarrow> (k, v) # (k', v') # kvs
      | Some m \<Rightarrow>
          if m < n then (k', v') # obj_insert_index n k v kvs
          else (k, v) # (k', v') # kvs)"

definition obj_get :: "'v js_object \<Rightarrow> string \<Rightarrow> 'v option" where
  "obj_get obj k = map_of obj k"

text \<open>\<^verbatim>\<open>obj[k] = v\<close>, and \<^verbatim>\<open>{ ...obj, [k]: v }\<close> on a copy.\<close>

definition obj_set :: "string \<Rightarrow> 'v \<Rightarrow> 'v js_object \<Rightarrow> 'v js_object" where
  "obj_set k v obj =
     (case map_of obj k of
        Some old \<Rightarrow> obj_replace k v obj
      | None \<Rightarrow>
          (case array_index k of
             None \<Rightarrow> obj @ [(k, v)]
           | Some n \<Rightarrow> obj_insert_index n k v obj))"

definition obj_keys :: "'v js_object \<Rightarrow> string list" where
  "obj_keys obj = map fst obj"

subsection \<open>The component's data\<close>

record StageTimings =
  clarification :: rat
  research_brief :: rat
  research_execution :: rat
  final_report :: rat

record ComparisonResult =
  model :: string
  duration :: rat
  stage_timings :: StageTimings
  sources_found :: rat
  word_count :: rat
  success :: bool
  error :: "string option"
  report_content :: string
  supervisor_tools_used :: "string list"

text \<open>\<open>user_feedback\<close> is an opaque JSON object, kept as its text.\<close>

record ComparisonSession =
  session_id :: string
  query :: string
  timestamp :: string
  results :: "ComparisonResult list"
  user_feedback :: "string option"

record ResultSummary =
  summary_word_count :: rat
  summary_sources_found :: rat
  summary_duration :: rat

datatype status = Pending | Running | Completed | Failed

text \<open>
  One value of the \<open>modelProgress\<close> record. \<open>startTime\<close> and \<open>currentDuration\<close> are
  options because an entry built by spreading \<^verbatim>\<open>prev[evt.model]\<close> for a key that is
  not there (\<^verbatim>\<open>{ ...undefined, stage: ... }\<close>) has no such property, and
  \<^verbatim>\<open>evt.elapsed\<close> of a \<open>model_error\<close> event may be absent.
\<close>

record ModelProgress =
  stage :: string
  startTime :: "int option"
  currentDuration :: "jsnum option"
  progress :: rat
  status :: status
  resultSummary :: "ResultSummary option"

text \<open>
  The parsed events of the stream, by their \<open>type\<close> field; the arguments are the fields
  the handlers read. \<open>Other\<close> is any other parsed value (an unknown \<open>type\<close>).
\<close>

datatype sse_event =
    session_start string
  | model_progress string string rat rat
  | model_complete string rat "ResultSummary option" "ComparisonResult option"
  | model_error string "string option" "rat option" "rat option"
  | error_event "string option"
  | session_complete ComparisonSession
  | heartbeat
  | Other string

record comparison_state =
  loading :: bool
  comparisonData :: "string option"
  errorMessage :: "string option"
  queryText :: string
  selectedModels :: "string list"
  isRunning :: bool
  latestSession :: "ComparisonSession option"
  earlyResults :: "ComparisonResult list"
  selectedResult :: "ComparisonResult option"
  modelProgress :: "ModelProgress js_object"
  abortController :: bool

subsection \<open>The frame decoder of the read loop\<close>

text \<open>\<^verbatim>\<open>s.split('\n')\<close>: never empty; the last element is the text after the last newline.\<close>

fun split_newline :: "string \<Rightarrow> string list" where
  "split_newline [] = [[]]"
| "split_newline (c # cs) =
     (if c = CHR 0x0A then [] # split_newline cs
      else (case split_newline cs of
              [] \<Rightarrow> [[c]]
            | l # ls \<Rightarrow> (c # l) # ls))"

text \<open>\<^verbatim>\<open>rawLine.replace(/\r$/, '')\<close>\<close>

definition strip_cr :: "string \<Rightarrow> string" where
  "strip_cr rawLine =
     (if rawLine \<noteq> [] \<and> last rawLine = CHR 0x0D then butlast rawLine else rawLine)"

definition startsWith :: "string \<Rightarrow> string \<Rightarrow> bool" where
  "startsWith s p = (take (length p) s = p)"

text \<open>
  \<^verbatim>\<open>sseBuffer += chunk; const lines = sseBuffer.split('\n'); sseBuffer = lines.pop() || ''\<close>:
  the lines to process and the new buffer.
\<close>

definition take_lines :: "string \<Rightarrow> string \<Rightarrow> string list \<times> string" where
  "take_lines sseBuffer chunk =
     (let lines = split_newline (sseBuffer @ chunk)
      in if lines = [] then ([], [])
         else (butlast lines, if last lines = [] then [] else last lines))"

text \<open>
  The values of \<open>line\<close> in the \<^verbatim>\<open>for (const rawLine of lines)\<close> loops of the whole
  \<^verbatim>\<open>while (true)\<close> loop, in order, for the chunks the reader returns.
\<close>

fun sse_lines :: "string \<Rightarrow> string list \<Rightarrow> string list" where
  "sse_lines sseBuffer [] = []"
| "sse_lines sseBuffer (chunk # chunks) =
     (case take_lines sseBuffer chunk of
        (lines, sseBuffer') \<Rightarrow> map strip_cr lines @ sse_lines sseBuffer' chunks)"

text \<open>The payloads given to \<^verbatim>\<open>JSON.parse\<close>: \<^verbatim>\<open>line.slice(6)\<close> of the lines that start with \<^verbatim>\<open>data: \<close>.\<close>

definition data_payloads :: "string list \<Rightarrow> string list" where
  "data_payloads ls = map (drop 6) (filter (\<lambda>line. startsWith line ''data: '') ls)"

subsection \<open>Event handlers of the read loop\<close>

text \<open>
  \<^verbatim>\<open>{ ...old, stage: stg, progress: p, status: st }\<close>, where \<open>old\<close> is
  \<^verbatim>\<open>prev[key]\<close>: spreading \<open>undefined\<close> copies no property.
\<close>

definition spread_entry :: "ModelProgress option \<Rightarrow> string \<Rightarrow> rat \<Rightarrow> status \<Rightarrow> ModelProgress" where
  "spread_entry old stg p st =
     (case old of
        None \<Rightarrow> \<lparr>stage = stg, startTime = None, currentDuration = None, progress = p,
                 status = st, resultSummary = None\<rparr>
      | Some e \<Rightarrow> e\<lparr>stage := stg, progress := p, status := st\<rparr>)"

text \<open>The branches of \<^verbatim>\<open>if (evt.type === ...)\<close>, in the source's order.\<close>

fun handle_event :: "sse_event \<Rightarrow> comparison_state \<Rightarrow> comparison_state" where
  "handle_event (session_start sid) s = s"
| "handle_event (model_progress m stg elapsed p) s =
     s\<lparr>modelProgress :=
         obj_set m ((spread_entry (obj_get (modelProgress s) m) stg p Running)
                      \<lparr>currentDuration := Some (Num elapsed)\<rparr>)
           (modelProgress s)\<rparr>"
| "handle_event (model_complete m elapsed summary res) s =
     (let s' = s\<lparr>modelProgress :=
                   obj_set m ((spread_entry (obj_get (modelProgress s) m) ''Completed'' 100 Completed)
                                \<lparr>currentDuration := Some (Num elapsed), resultSummary := summary\<rparr>)
                     (modelProgress s)\<rparr>
      in case res of
           None \<Rightarrow> s'
         | Some r \<Rightarrow> s'\<lparr>earlyResults := filter (\<lambda>r'. model r' \<noteq> m) (earlyResults s') @ [r]\<rparr>)"
| "handle_event (model_error m stg elapsed p) s =
     s\<lparr>modelProgress :=
         obj_set m ((spread_entry (obj_get (modelProgress s) m) (or_string stg ''Failed'')
                       (or_number p 0) Failed)
                      \<lparr>currentDuration := map_option Num elapsed\<rparr>)
           (modelProgress s)\<rparr>"
| "handle_event (error_event msg) s =
     s\<lparr>errorMessage := Some (or_string msg ''Backend stream error'')\<rparr>"
| "handle_event (session_complete sess) s = s\<lparr>latestSession := Some sess\<rparr>"
| "handle_event heartbeat s = s"
| "handle_event (Other t) s = s"

text \<open>
  The body of \<^verbatim>\<open>for (const rawLine of lines)\<close> for one \<open>line\<close> (the raw line
  without its carriage return). \<open>parse\<close> is \<^verbatim>\<open>JSON.parse\<close> followed by the reading
  of the event's fields; \<open>None\<close> is an exception, which the \<^verbatim>\<open>catch\<close> of the
  loop body drops.
\<close>

definition process_line :: "(string \<Rightarrow> sse_event option) \<Rightarrow> comparison_state \<Rightarrow> string \<Rightarrow> comparison_state" where
  "process_line parse s line =
     (if startsWith line ''data: ''
      then (case parse (drop 6 line) of None \<Rightarrow> s | Some evt \<Rightarrow> handle_event evt s)
      else s)"

text \<open>One iteration of \<^verbatim>\<open>while (true)\<close> for a chunk that \<^verbatim>\<open>reader.read()\<close> returns.\<close>

definition process_chunk :: "(string \<Rightarrow> sse_event option) \<Rightarrow> comparison_state \<times> string \<Rightarrow> string \<Rightarrow> comparison_state \<times> string" where
  "process_chunk parse run chunk =
     (case run of (s, sseBuffer) \<Rightarrow>
        (case take_lines sseBuffer chunk of
           (lines, sseBuffer') \<Rightarrow> (foldl (process_line parse) s (map strip_cr lines), sseBuffer')))"

definition read_chunks :: "(string \<Rightarrow> sse_event option) \<Rightarrow> comparison_state \<times> string \<Rightarrow> string list \<Rightarrow> comparison_state \<times> string" where
  "read_chunks parse run chunks = foldl (process_chunk parse) run chunks"

text \<open>The events that the lines give, in order: the parsed payloads of the data lines.\<close>

fun decode_events :: "(string \<Rightarrow> sse_event option) \<Rightarrow> string list \<Rightarrow> sse_event list" where
  "decode_events parse [] = []"
| "decode_events parse (payload # payloads) =
     (case parse payload of
        None \<Rightarrow> decode_events parse payloads
      | Some evt \<Rightarrow> evt # decode_events parse payloads)"

subsection \<open>The one-second interval\<close>

text \<open>
  \<open>rnd\<close> is the rounding of one double-precision operation (the identity gives exact
  arithmetic); every theorem below holds for any \<open>rnd\<close>. With \<open>startTime\<close> undefined
  \<open>elapsed\<close> is \<open>NaN\<close>: \<^verbatim>\<open>Math.max(0, NaN)\<close> is \<open>NaN\<close>, \<^verbatim>\<open>NaN > 0\<close> is false,
  and the progress is \<^verbatim>\<open>Math.max(p, p)\<close>.
\<close>

definition modelDelay :: "(rat \<Rightarrow> rat) \<Rightarrow> nat \<Rightarrow> rat" where
  "modelDelay rnd modelIndex = rnd (2 + rnd (of_nat modelIndex * rnd (12 / 10)))"

definition modelRate :: "(rat \<Rightarrow> rat) \<Rightarrow> nat \<Rightarrow> rat" where
  "modelRate rnd modelIndex = rnd (rnd (35 / 100) + rnd (of_nat modelIndex * rnd (12 / 100)))"

definition tick_entry :: "(rat \<Rightarrow> rat) \<Rightarrow> int \<Rightarrow> nat \<Rightarrow> ModelProgress \<Rightarrow> ModelProgress" where
  "tick_entry rnd now modelIndex e =
     (if status e = Running then
        (case startTime e of
           None \<Rightarrow> e\<lparr>currentDuration := Some NaN\<rparr>
         | Some t \<Rightarrow>
             (let elapsed = rnd (of_int (now - t) / 1000);
                  adjustedElapsed = max 0 (rnd (elapsed - modelDelay rnd modelIndex));
                  syntheticProgress =
                    (if progress e < 15 \<and> adjustedElapsed > 0
                     then min 15 (max (progress e)
                            (rnd (1 + of_int \<lfloor>rnd (adjustedElapsed * modelRate rnd modelIndex)\<rfloor>)))
                     else progress e)
              in e\<lparr>currentDuration := Some (Num elapsed),
                    progress := max (progress e) syntheticProgress\<rparr>))
      else e)"

text \<open>
  \<^verbatim>\<open>Object.keys(prev).forEach((model, modelIndex) => ...)\<close>; \<open>clock i\<close> is what
  \<^verbatim>\<open>Date.now()\<close> returns in iteration \<open>i\<close>. The keys are written to the new object in
  the order they are read, so their order is kept.
\<close>

fun tick_entries :: "(rat \<Rightarrow> rat) \<Rightarrow> (nat \<Rightarrow> int) \<Rightarrow> nat \<Rightarrow> ModelProgress js_object \<Rightarrow> ModelProgress js_object" where
  "tick_entries rnd clock i [] = []"
| "tick_entries rnd clock i ((k, e) # kvs) =
     (k, tick_entry rnd (clock i) i e) # tick_entries rnd clock (Suc i) kvs"

definition interval_tick :: "(rat \<Rightarrow> rat) \<Rightarrow> (nat \<Rightarrow> int) \<Rightarrow> comparison_state \<Rightarrow> comparison_state" where
  "interval_tick rnd clock s = s\<lparr>modelProgress := tick_entries rnd clock 0 (modelProgress s)\<rparr>"

subsection \<open>Start, stop, reset and the ends of a run\<close>

datatype fetch_outcome = FetchOk string | FetchFailed string

text \<open>
  \<^verbatim>\<open>fetchComparisonData\<close> in its two parts: what it does when it is called, before it
  awaits the request, and what it does when the request has settled (it catches every
  failure itself).
\<close>

definition fetchComparisonData_begin :: "comparison_state \<Rightarrow> comparison_state" where
  "fetchComparisonData_begin s = s\<lparr>loading := True, errorMessage := None\<rparr>"

definition fetchComparisonData_settle :: "fetch_outcome \<Rightarrow> comparison_state \<Rightarrow> comparison_state" where
  "fetchComparisonData_settle fo s =
     (case fo of
        FetchOk d \<Rightarrow> s\<lparr>comparisonData := Some d, loading := False\<rparr>
      | FetchFailed msg \<Rightarrow> s\<lparr>errorMessage := Some msg, loading := False\<rparr>)"

definition stop_entry :: "ModelProgress \<Rightarrow> ModelProgress" where
  "stop_entry e =
     (if status e = Running \<or> status e = Pending
      then e\<lparr>status := Failed, stage := ''Stopped by user''\<rparr> else e)"

definition stopComparison :: "comparison_state \<Rightarrow> comparison_state" where
  "stopComparison s =
     s\<lparr>abortController := False, isRunning := False,
       modelProgress := map (\<lambda>(k, e). (k, stop_entry e)) (modelProgress s)\<rparr>"

definition resetComparison :: "comparison_state \<Rightarrow> comparison_state" where
  "resetComparison s =
     (stopComparison s)\<lparr>queryText := [], earlyResults := [], latestSession := None,
       modelProgress := [], selectedResult := None, errorMessage := None\<rparr>"

text \<open>
  \<^verbatim>\<open>runComparison\<close> from \<^verbatim>\<open>setIsRunning(true)\<close> to the \<^verbatim>\<open>fetch\<close>, for the
  \<open>selectedModels\<close> of its closure; \<open>clock i\<close> is \<^verbatim>\<open>Date.now()\<close> for the \<open>i\<close>-th model.
  (The guards before it return without starting a run.)
\<close>

fun initialProgress :: "(nat \<Rightarrow> int) \<Rightarrow> nat \<Rightarrow> string list \<Rightarrow> ModelProgress js_object \<Rightarrow> ModelProgress js_object" where
  "initialProgress clock i [] obj = obj"
| "initialProgress clock i (m # ms) obj =
     initialProgress clock (Suc i) ms
       (obj_set m \<lparr>stage = ''Initializing...'', startTime = Some (clock i),
                   currentDuration = Some (Num 0), progress = 0, status = Pending,
                   resultSummary = None\<rparr> obj)"

definition start_tracking :: "string \<Rightarrow> ModelProgress js_object \<Rightarrow> ModelProgress js_object" where
  "start_tracking m prev =
     obj_set m (spread_entry (obj_get prev m) ''Running research...'' 0 Running) prev"

definition runComparison_start :: "(nat \<Rightarrow> int) \<Rightarrow> string list \<Rightarrow> comparison_state \<Rightarrow> comparison_state" where
  "runComparison_start clock models s =
     s\<lparr>isRunning := True, errorMessage := None, earlyResults := [], latestSession := None,
       modelProgress := foldl (\<lambda>prev m. start_tracking m prev) (initialProgress clock 0 models []) models,
       abortController := True\<rparr>"

text \<open>
  The outer \<^verbatim>\<open>catch\<close> and \<^verbatim>\<open>finally\<close> of \<^verbatim>\<open>runComparison\<close>, for the value thrown by
  \<^verbatim>\<open>fetch\<close> or \<^verbatim>\<open>reader.read()\<close>.
\<close>

datatype thrown = AbortError | ErrorWith string | NotAnError

definition mark_failed :: "string \<Rightarrow> ModelProgress js_object \<Rightarrow> ModelProgress js_object" where
  "mark_failed m prev =
     obj_set m (spread_entry (obj_get prev m) ''Failed''
                  (case obj_get prev m of None \<Rightarrow> 0 | Some e \<Rightarrow> or_number (Some (progress e)) 0)
                  Failed) prev"

definition runComparison_catch :: "string list \<Rightarrow> thrown \<Rightarrow> comparison_state \<Rightarrow> comparison_state" where
  "runComparison_catch models ex s =
     (let s' = (case ex of
                  AbortError \<Rightarrow> s
                | ErrorWith msg \<Rightarrow>
                    s\<lparr>errorMessage := Some msg,
                      modelProgress := foldl (\<lambda>prev m. mark_failed m prev) (modelProgress s) models\<rparr>
                | NotAnError \<Rightarrow>
                    s\<lparr>errorMessage := Some ''Unknown error occurred'',
                      modelProgress := foldl (\<lambda>prev m. mark_failed m prev) (modelProgress s) models\<rparr>)
      in s'\<lparr>abortController := False, isRunning := False\<rparr>)"

text \<open>
  When the awaited \<^verbatim>\<open>fetchComparisonData()\<close> of \<^verbatim>\<open>runComparison\<close> has settled, the
  outer \<^verbatim>\<open>finally\<close> block runs.
\<close>

definition refresh_settled :: "fetch_outcome \<Rightarrow> comparison_state \<Rightarrow> comparison_state" where
  "refresh_settled fo s =
     (fetchComparisonData_settle fo s)\<lparr>abortController := False, isRunning := False\<rparr>"

text \<open>The values of the \<^verbatim>\<open>useState\<close> calls when the component mounts.\<close>

definition initial_state :: comparison_state where
  "initial_state =
     \<lparr>loading = True, comparisonData = None, errorMessage = None, queryText = [],
      selectedModels = [''zhipu'', ''deepseek'', ''kimi''], isRunning = False,
      latestSession = None, earlyResults = [], selectedResult = None,
      modelProgress = [], abortController = False\<rparr>"

subsection \<open>A run as a sequence of occurrences\<close>

text \<open>
  What can happen during a call of \<^verbatim>\<open>runComparison\<close>, one at a time (the component
  runs on one thread): the loop handles the next event of the stream, the interval
  fires, the six-minute \<open>streamTimeout\<close> fires, the stream closes, the request of
  \<^verbatim>\<open>fetchComparisonData\<close> settles, the user presses stop, the read fails.
  \<open>reading\<close> says that the loop awaits \<^verbatim>\<open>reader.read()\<close>; the timeout is pending
  exactly then (the \<^verbatim>\<open>finally\<close> of the loop clears it). \<open>refreshing\<close> says that
  \<^verbatim>\<open>runComparison\<close> awaits \<^verbatim>\<open>fetchComparisonData()\<close> after the loop: \<open>isRunning\<close>
  still holds then, and the interval exists as long as it does.
\<close>

datatype occurrence =
    Event sse_event
  | Tick "nat \<Rightarrow> int"
  | StreamTimeout
  | StreamClosed
  | RefreshSettles fetch_outcome
  | UserStop
  | ReadFails thrown

record run =
  state :: comparison_state
  reading :: bool
  readerCancelled :: bool
  refreshing :: bool

text \<open>\<^verbatim>\<open>reader.cancel()\<close>, the body of the \<open>streamTimeout\<close> callback.\<close>

definition reader_cancel :: "run \<Rightarrow> run" where
  "reader_cancel r = r\<lparr>readerCancelled := True\<rparr>"

text \<open>
  \<^verbatim>\<open>reader.read()\<close> resolves with \<open>done\<close>: the loop leaves by its \<^verbatim>\<open>break\<close>, the
  timeout is cleared, and \<^verbatim>\<open>fetchComparisonData()\<close> is called and awaited.
\<close>

definition read_done :: "run \<Rightarrow> run" where
  "read_done r =
     r\<lparr>state := fetchComparisonData_begin (state r), reading := False, refreshing := True\<rparr>"

fun occur :: "(rat \<Rightarrow> rat) \<Rightarrow> string list \<Rightarrow> run \<Rightarrow> occurrence \<Rightarrow> run" where
  "occur rnd models r (Event evt) =
     (if reading r then r\<lparr>state := handle_event evt (state r)\<rparr> else r)"
| "occur rnd models r (Tick clock) =
     (if isRunning (state r) then r\<lparr>state := interval_tick rnd clock (state r)\<rparr> else r)"
| "occur rnd models r StreamTimeout =
     (if reading r then read_done (reader_cancel r) else r)"
| "occur rnd models r StreamClosed =
     (if reading r then read_done r else r)"
| "occur rnd models r (RefreshSettles fo) =
     (if refreshing r
      then r\<lparr>state := refresh_settled fo (state r), refreshing := False\<rparr>
      else r)"
| "occur rnd models r UserStop =
     (if reading r
      then r\<lparr>state := runComparison_catch models AbortError (stopComparison (state r)),
             reading := False\<rparr>
      else r\<lparr>state := stopComparison (state r)\<rparr>)"
| "occur rnd models r (ReadFails ex) =
     (if reading r then r\<lparr>state := runComparison_catch models ex (state r), reading := False\<rparr>
      else r)"

definition run_trace :: "(rat \<Rightarrow> rat) \<Rightarrow> string list \<Rightarrow> run \<Rightarrow> occurrence list \<Rightarrow> run" where
  "run_trace rnd models r os = foldl (occur rnd models) r os"

text \<open>The run that \<^verbatim>\<open>runComparison\<close> starts for \<open>models\<close>, once the stream is open.\<close>

definition started_run :: "(nat \<Rightarrow> int) \<Rightarrow> string list \<Rightarrow> run" where
  "started_run clock models =
     \<lparr>state = runComparison_start clock models initial_state, reading = True,
      readerCancelled = False, refreshing = False\<rparr>"

text \<open>The entry of worker \<open>w\<close> in a run.\<close>

definition worker :: "run \<Rightarrow> string \<Rightarrow> ModelProgress option" where
  "worker r w = obj_get (modelProgress (state r)) w"

subsection \<open>Conditions on the occurrences of a run\<close>

text \<open>
  The runs of ticks and \<open>model_progress\<close> events in which no \<open>model_progress\<close> event
  for worker \<open>w\<close> reports less than the progress \<open>w\<close> has when the event arrives.
\<close>

fun reports_at_least :: "(rat \<Rightarrow> rat) \<Rightarrow> string list \<Rightarrow> string \<Rightarrow> run \<Rightarrow> occurrence list \<Rightarrow> bool" where
  "reports_at_least rnd models w r [] = True"
| "reports_at_least rnd models w r (oc # os) =
     ((case oc of
         Tick clock \<Rightarrow> True
       | Event (model_progress m stg el p) \<Rightarrow>
           (if m = w then (case worker r w of None \<Rightarrow> True | Some e \<Rightarrow> progress e \<le> p)
            else True)
       | _ \<Rightarrow> False) \<and>
      reports_at_least rnd models w (occur rnd models r oc) os)"

text \<open>
  The occurrences other than a \<open>model_progress\<close> or \<open>model_error\<close> event for worker
  \<open>w\<close> and a failed read (whose handler marks every model of the run as failed).
\<close>

fun leaves_alone :: "string \<Rightarrow> occurrence \<Rightarrow> bool" where
  "leaves_alone w (Event (model_progress m stg el p)) = (m \<noteq> w)"
| "leaves_alone w (Event (model_error m stg el p)) = (m \<noteq> w)"
| "leaves_alone w (ReadFails ex) = (ex = AbortError)"
| "leaves_alone w oc = True"

section \<open>Properties\<close>

subsection \<open>Reading and writing objects\<close>

lemma map_of_obj_replace:
  "map_of obj k \<noteq> None \<Longrightarrow> map_of (obj_replace k v obj) k' = (if k' = k then Some v else map_of obj k')"
  by (induction obj) auto

lemma map_of_obj_insert_index:
  "map_of obj k = None \<Longrightarrow>
   map_of (obj_insert_index n k v obj) k' = (if k' = k then Some v else map_of obj k')"
  by (induction obj) (auto split: option.splits if_splits)

lemma obj_get_obj_set:
  "obj_get (obj_set k v obj) k' = (if k' = k then Some v else obj_get obj k')"
proof (cases "map_of obj k")
  case None
  then show ?thesis
    by (cases "array_index k")
      (auto simp add: obj_get_def obj_set_def map_of_obj_insert_index map_add_def split: option.splits)
next
  case (Some old)
  then show ?thesis
    by (simp add: obj_get_def obj_set_def map_of_obj_replace)
qed

lemma obj_get_map_values:
  "obj_get (map (\<lambda>(k, e). (k, f e)) obj) k = map_option f (obj_get obj k)"
  by (induction obj) (auto simp: obj_get_def)

subsection \<open>The frame decoder\<close>

lemma split_newline_nonempty: "split_newline s \<noteq> []"
  by (induction s) (auto split: list.splits)

lemma split_newline_no_lf: "CHR 0x0A \<notin> set s \<Longrightarrow> split_newline s = [s]"
  by (induction s) auto

lemma split_newline_lines_no_lf: "l \<in> set (split_newline s) \<Longrightarrow> CHR 0x0A \<notin> set l"
  by (induction s arbitrary: l) (auto split: if_splits list.splits)

lemma split_newline_append:
  "split_newline (a @ b) = butlast (split_newline a) @ split_newline (last (split_newline a) @ b)"
proof (induction a)
  case Nil
  show ?case by simp
next
  case (Cons c cs)
  obtain l ls where sp: "split_newline cs = l # ls"
    using split_newline_nonempty [of cs] by (cases "split_newline cs") auto
  show ?case
  proof (cases "c = CHR 0x0A")
    case True
    then show ?thesis using Cons sp by simp
  next
    case False
    show ?thesis
    proof (cases ls)
      case Nil
      then show ?thesis using Cons sp False by simp
    next
      case (Cons l' ls')
      then show ?thesis using Cons.IH sp False by simp
    qed
  qed
qed

lemma take_lines_eq:
  "take_lines buf chunk = (butlast (split_newline (buf @ chunk)), last (split_newline (buf @ chunk)))"
  by (simp add: take_lines_def Let_def split_newline_nonempty)

lemma take_lines_buffer_no_lf: "CHR 0x0A \<notin> set (snd (take_lines buf chunk))"
  using split_newline_lines_no_lf [of "last (split_newline (buf @ chunk))" "buf @ chunk"]
    split_newline_nonempty [of "buf @ chunk"]
  by (simp add: take_lines_eq)

lemma sse_lines_eq:
  "CHR 0x0A \<notin> set buf \<Longrightarrow>
   sse_lines buf chunks = map strip_cr (butlast (split_newline (buf @ concat chunks)))"
proof (induction chunks arbitrary: buf)
  case Nil
  then show ?case by (simp add: split_newline_no_lf)
next
  case (Cons chunk chunks)
  let ?ls = "split_newline (buf @ chunk)"
  have nolf: "CHR 0x0A \<notin> set (last ?ls)"
    using take_lines_buffer_no_lf [of buf chunk] by (simp add: take_lines_eq)
  have "split_newline (buf @ concat (chunk # chunks)) =
        butlast ?ls @ split_newline (last ?ls @ concat chunks)"
    using split_newline_append [of "buf @ chunk" "concat chunks"] by simp
  then have "butlast (split_newline (buf @ concat (chunk # chunks))) =
        butlast ?ls @ butlast (split_newline (last ?ls @ concat chunks))"
    by (simp add: butlast_append split_newline_nonempty)
  then show ?case
    using Cons.IH [OF nolf] by (simp add: take_lines_eq)
qed

lemma split_newline_record:
  "CHR 0x0A \<notin> set r \<Longrightarrow> split_newline (r @ CHR 0x0A # s) = r # split_newline s"
  by (induction r) auto

lemma split_newline_records:
  "\<forall>r \<in> set rs. CHR 0x0A \<notin> set r \<Longrightarrow>
   split_newline (concat (map (\<lambda>r. r @ [CHR 0x0A]) rs)) = rs @ [[]]"
  by (induction rs) (auto simp: split_newline_record)

lemma read_chunks_sse_lines:
  "fst (read_chunks parse (s, buf) chunks) = foldl (process_line parse) s (sse_lines buf chunks)"
proof (induction chunks arbitrary: s buf)
  case Nil
  show ?case by (simp add: read_chunks_def)
next
  case (Cons chunk chunks)
  obtain ls buf' where tl: "take_lines buf chunk = (ls, buf')"
    by (cases "take_lines buf chunk")
  show ?case
    using Cons.IH [of "foldl (process_line parse) s (map strip_cr ls)" buf'] tl
    by (simp add: read_chunks_def process_chunk_def)
qed

lemma process_lines_decode_events:
  "foldl (process_line parse) s ls = foldl (\<lambda>s evt. handle_event evt s) s (decode_events parse (data_payloads ls))"
proof (induction ls arbitrary: s)
  case Nil
  show ?case by (simp add: data_payloads_def)
next
  case (Cons l ls)
  show ?case
    using Cons.IH
    by (cases "parse (drop 6 l)") (simp_all add: data_payloads_def process_line_def)
qed

lemma strip_cr_crlf: "strip_cr (l @ [CHR 0x0D]) = l"
  by (simp add: strip_cr_def)

lemma strip_cr_plain: "l = [] \<or> last l \<noteq> CHR 0x0D \<Longrightarrow> strip_cr l = l"
  by (auto simp: strip_cr_def)

lemma strip_cr_record:
  "crlf \<or> l = [] \<or> last l \<noteq> CHR 0x0D \<Longrightarrow>
   strip_cr (if crlf then l @ [CHR 0x0D] else l) = l"
  by (cases crlf) (simp_all add: strip_cr_crlf strip_cr_plain)

lemma strip_cr_records:
  assumes "\<forall>(l, crlf) \<in> set rs. CHR 0x0A \<notin> set l \<and> (crlf \<or> l = [] \<or> last l \<noteq> CHR 0x0D)"
  shows "map (\<lambda>(l, crlf). strip_cr (if crlf then l @ [CHR 0x0D] else l)) rs = map fst rs"
proof (rule map_cong [OF refl])
  fix r assume r: "r \<in> set rs"
  obtain l crlf where lc: "r = (l, crlf)" by (cases r)
  have "crlf \<or> l = [] \<or> last l \<noteq> CHR 0x0D" using assms r lc by auto
  then show "(case r of (l, crlf) \<Rightarrow> strip_cr (if crlf then l @ [CHR 0x0D] else l)) = fst r"
    using lc strip_cr_record [of crlf l] by simp
qed

lemma records_text:
  "concat (map (\<lambda>(l, crlf). l @ (if crlf then [CHR 0x0D, CHR 0x0A] else [CHR 0x0A])) rs) =
   concat (map (\<lambda>r. r @ [CHR 0x0A]) (map (\<lambda>(l, crlf). if crlf then l @ [CHR 0x0D] else l) rs))"
  by (induction rs) (simp_all add: case_prod_beta)

lemma records_no_lf:
  assumes "\<forall>(l, crlf) \<in> set rs. CHR 0x0A \<notin> set l \<and> (crlf \<or> l = [] \<or> last l \<noteq> CHR 0x0D)"
  shows "\<forall>r \<in> set (map (\<lambda>(l, crlf). if crlf then l @ [CHR 0x0D] else l) rs). CHR 0x0A \<notin> set r"
proof
  fix r assume "r \<in> set (map (\<lambda>(l, crlf). if crlf then l @ [CHR 0x0D] else l) rs)"
  then obtain l crlf where lc: "(l, crlf) \<in> set rs" "r = (if crlf then l @ [CHR 0x0D] else l)"
    by auto
  then have "CHR 0x0A \<notin> set l" using assms by auto
  then show "CHR 0x0A \<notin> set r" using lc(2) by (cases crlf) simp_all
qed

lemma sse_lines_of_records:
  assumes "\<forall>(l, crlf) \<in> set rs. CHR 0x0A \<notin> set l \<and> (crlf \<or> l = [] \<or> last l \<noteq> CHR 0x0D)"
    and "concat chunks =
           concat (map (\<lambda>(l, crlf). l @ (if crlf then [CHR 0x0D, CHR 0x0A] else [CHR 0x0A])) rs)"
  shows "sse_lines [] chunks = map fst rs"
proof -
  let ?raws = "map (\<lambda>(l, crlf). if crlf then l @ [CHR 0x0D] else l) rs"
  have "concat chunks = concat (map (\<lambda>r. r @ [CHR 0x0A]) ?raws)"
    using assms(2) by (simp only: records_text)
  then have "split_newline ([] @ concat chunks) = ?raws @ [[]]"
    using split_newline_records [OF records_no_lf [OF assms(1)]] by simp
  then have "sse_lines [] chunks = map strip_cr ?raws"
    using sse_lines_eq [of "[]" chunks] by simp
  also have "\<dots> = map (\<lambda>(l, crlf). strip_cr (if crlf then l @ [CHR 0x0D] else l)) rs"
    by (simp add: case_prod_beta)
  also have "\<dots> = map fst rs"
    by (rule strip_cr_records [OF assms(1)])
  finally show ?thesis .
qed

text \<open>
  Claim C4. Take any lines without a newline in them, each sent either with a carriage
  return and a newline after it or, if it does not itself end in a carriage return, with
  a newline alone, and cut that text into chunks in any way (inside a record, between the
  carriage return and the newline, on a record boundary, with empty chunks). The read loop
  iterates over exactly the lines, in order: a partial line waits in the buffer for the
  next chunk, the one carriage return before the newline is removed and nothing else is,
  and no record is lost. The state the loop reaches is the one that handling the events of
  the lines' data payloads in order gives.
\<close>

theorem decoder_chunk_independent:
  assumes "\<forall>(l, crlf) \<in> set rs. CHR 0x0A \<notin> set l \<and> (crlf \<or> l = [] \<or> last l \<noteq> CHR 0x0D)"
    and "concat chunks =
           concat (map (\<lambda>(l, crlf). l @ (if crlf then [CHR 0x0D, CHR 0x0A] else [CHR 0x0A])) rs)"
  shows "sse_lines [] chunks = map fst rs \<and>
         fst (read_chunks parse (s, []) chunks) =
           foldl (\<lambda>s evt. handle_event evt s) s
             (decode_events parse (data_payloads (map fst rs)))"
  using sse_lines_of_records [OF assms]
  by (simp add: read_chunks_sse_lines process_lines_decode_events)

theorem decoder_chunk_independent_witness:
  "sse_lines []
     [''data: a'', [CHR 0x0D], CHR 0x0A # ''data: b'' @ [CHR 0x0D, CHR 0x0D], [],
      CHR 0x0A # ''data: c'' @ [CHR 0x0A] @ '': keep'', ''-alive'' @ [CHR 0x0A]] =
     [''data: a'', ''data: b'' @ [CHR 0x0D], ''data: c'', '': keep-alive'']"
proof -
  have "sse_lines []
     [''data: a'', [CHR 0x0D], CHR 0x0A # ''data: b'' @ [CHR 0x0D, CHR 0x0D], [],
      CHR 0x0A # ''data: c'' @ [CHR 0x0A] @ '': keep'', ''-alive'' @ [CHR 0x0A]] =
     map fst [(''data: a'', True), (''data: b'' @ [CHR 0x0D], True), (''data: c'', False),
              ('': keep-alive'', False)]"
    by (rule conjunct1 [OF decoder_chunk_independent]) simp_all
  then show ?thesis by simp
qed

subsection \<open>Event handlers\<close>

lemma obj_get_initialProgress_None:
  "obj_get (initialProgress clock i ms obj) w = None \<longleftrightarrow> obj_get obj w = None \<and> w \<notin> set ms"
  by (induction ms arbitrary: i obj) (auto simp: obj_get_obj_set)

lemma obj_get_start_tracking_None:
  "obj_get (foldl (\<lambda>prev m. start_tracking m prev) obj ms) w = None \<longleftrightarrow>
   obj_get obj w = None \<and> w \<notin> set ms"
  by (induction ms arbitrary: obj) (auto simp: obj_get_obj_set start_tracking_def)

lemma runComparison_start_unselected:
  "w \<notin> set models \<Longrightarrow> obj_get (modelProgress (runComparison_start clock models s)) w = None"
  by (simp add: runComparison_start_def obj_get_start_tracking_None obj_get_initialProgress_None)
    (simp add: obj_get_def)

text \<open>
  Claim C9. After a \<open>model_progress\<close> event for worker \<open>w\<close> the progress map holds
  an entry for \<open>w\<close> with the event's stage, elapsed time and progress and the status
  \<open>Running\<close>: the old entry with these four fields replaced, or, when there was none
  (as for a worker that is not among the models of the run), a fresh entry of these four
  fields only.
\<close>

theorem model_progress_writes_entry:
  "obj_get (modelProgress (handle_event (model_progress w stg el p) s)) w =
     Some (case obj_get (modelProgress s) w of
             None \<Rightarrow> \<lparr>stage = stg, startTime = None, currentDuration = Some (Num el),
                      progress = p, status = Running, resultSummary = None\<rparr>
           | Some e \<Rightarrow> e\<lparr>stage := stg, currentDuration := Some (Num el), progress := p,
                        status := Running\<rparr>) \<and>
   (w \<notin> set models \<longrightarrow>
      obj_get (modelProgress (handle_event (model_progress w stg el p)
                 (runComparison_start clock models s))) w =
        Some \<lparr>stage = stg, startTime = None, currentDuration = Some (Num el),
              progress = p, status = Running, resultSummary = None\<rparr>)"
  by (simp add: obj_get_obj_set spread_entry_def runComparison_start_unselected
      split: option.splits)

theorem model_progress_writes_entry_witness:
  "obj_get (modelProgress (handle_event (model_progress ''glm'' ''Searching'' 3 25)
              (runComparison_start (\<lambda>i. 0) [''zhipu'', ''kimi''] initial_state))) ''glm'' =
     Some \<lparr>stage = ''Searching'', startTime = None, currentDuration = Some (Num 3),
           progress = 25, status = Running, resultSummary = None\<rparr>"
  using model_progress_writes_entry
    [of "''glm''" "''Searching''" 3 25 initial_state "[''zhipu'', ''kimi'']" "\<lambda>i. 0"]
  by simp

text \<open>
  Claim C10. A \<open>model_error\<close> event marks the worker \<open>Failed\<close> and sets its progress to
  0 when the event's progress is absent or 0, whatever the worker showed before, and to
  the event's progress otherwise.
\<close>

theorem model_error_sets_progress:
  "\<exists>e. obj_get (modelProgress (handle_event (model_error w stg el p) s)) w = Some e \<and>
       status e = Failed \<and>
       progress e = (if p = None \<or> p = Some 0 then 0 else the p)"
  by (auto simp: obj_get_obj_set spread_entry_def or_number_def split: option.splits)

subsection \<open>The run-level error\<close>

lemma model_complete_status:
  "\<exists>e. obj_get (modelProgress (handle_event (model_complete w el sm res) s)) w = Some e \<and>
       progress e = 100 \<and> status e = Completed"
  by (cases res) (simp_all add: obj_get_obj_set spread_entry_def split: option.splits)

lemma model_complete_keeps_completed:
  assumes "obj_get (modelProgress s) w = Some e" and "progress e = 100" and "status e = Completed"
  shows "\<exists>e'. obj_get (modelProgress (handle_event (model_complete m el sm res) s)) w = Some e' \<and>
       progress e' = 100 \<and> status e' = Completed"
proof (cases "m = w")
  case True
  then show ?thesis using model_complete_status [of w el sm res s] by simp
next
  case False
  then show ?thesis using assms by (cases res) (simp_all add: obj_get_obj_set)
qed

lemma model_complete_errorMessage:
  "errorMessage (handle_event (model_complete m el sm res) s) = errorMessage s"
  by (cases res) simp_all

text \<open>
  An \<open>error\<close> event whose message is the empty string does not make the empty string
  the run-level error: the handler falls back to its own text.
\<close>

theorem error_event_counterexample:
  "errorMessage (state (occur (\<lambda>x. x) [''zhipu''] (started_run (\<lambda>i. 0) [''zhipu''])
       (Event (error_event (Some []))))) = Some ''Backend stream error'' \<and>
   errorMessage (state (occur (\<lambda>x. x) [''zhipu''] (started_run (\<lambda>i. 0) [''zhipu''])
       (Event (error_event (Some []))))) \<noteq> Some []"
  by (simp add: started_run_def or_string_def)

text \<open>
  Claim C8, amended. While the loop reads, an \<open>error\<close> event sets the run-level error to
  the event's message, or to \<^verbatim>\<open>Backend stream error\<close> when the message is absent or
  empty; it changes no entry of the progress map, and the loop goes on reading. After an
  \<open>error\<close> event and \<open>model_complete\<close> events for two workers, both workers are
  \<open>Completed\<close> and the run-level error is a non-empty string.
\<close>

theorem error_event_sets_run_error:
  assumes "reading r"
  shows "errorMessage (state (occur rnd models r (Event (error_event msg)))) =
           Some (if msg = None \<or> msg = Some [] then ''Backend stream error'' else the msg) \<and>
         modelProgress (state (occur rnd models r (Event (error_event msg)))) =
           modelProgress (state r) \<and>
         reading (occur rnd models r (Event (error_event msg))) \<and>
         (\<exists>e1 e2 m.
            worker (run_trace rnd models r
              [Event (error_event msg), Event (model_complete w1 el1 sm1 res1),
               Event (model_complete w2 el2 sm2 res2)]) w1 = Some e1 \<and> status e1 = Completed \<and>
            worker (run_trace rnd models r
              [Event (error_event msg), Event (model_complete w1 el1 sm1 res1),
               Event (model_complete w2 el2 sm2 res2)]) w2 = Some e2 \<and> status e2 = Completed \<and>
            errorMessage (state (run_trace rnd models r
              [Event (error_event msg), Event (model_complete w1 el1 sm1 res1),
               Event (model_complete w2 el2 sm2 res2)])) = Some m \<and> m \<noteq> [])"
proof -
  let ?s1 = "handle_event (error_event msg) (state r)"
  let ?s2 = "handle_event (model_complete w1 el1 sm1 res1) ?s1"
  let ?s3 = "handle_event (model_complete w2 el2 sm2 res2) ?s2"
  have tr: "state (run_trace rnd models r
              [Event (error_event msg), Event (model_complete w1 el1 sm1 res1),
               Event (model_complete w2 el2 sm2 res2)]) = ?s3"
    using assms by (simp add: run_trace_def)
  obtain e1 where e1: "obj_get (modelProgress ?s2) w1 = Some e1" "progress e1 = 100" "status e1 = Completed"
    using model_complete_status [of w1 el1 sm1 res1 ?s1] by blast
  obtain e1' where e1': "obj_get (modelProgress ?s3) w1 = Some e1'" "status e1' = Completed"
    using model_complete_keeps_completed [OF e1, of w2 el2 sm2 res2] by blast
  obtain e2 where e2: "obj_get (modelProgress ?s3) w2 = Some e2" "status e2 = Completed"
    using model_complete_status [of w2 el2 sm2 res2 ?s2] by blast
  have err: "errorMessage ?s3 = Some (or_string msg ''Backend stream error'')"
    by (simp only: model_complete_errorMessage) simp
  have ne: "or_string msg ''Backend stream error'' \<noteq> []"
    by (simp add: or_string_def split: option.splits)
  have first: "errorMessage (state (occur rnd models r (Event (error_event msg)))) =
           Some (if msg = None \<or> msg = Some [] then ''Backend stream error'' else the msg)"
    using assms by (auto simp: or_string_def split: option.splits)
  show ?thesis
    using first e1' e2 err ne assms unfolding tr worker_def by simp
qed

theorem error_event_sets_run_error_witness:
  "errorMessage (state (run_trace (\<lambda>x. x) [''zhipu'', ''kimi''] (started_run (\<lambda>i. 0) [''zhipu'', ''kimi''])
     [Event (error_event (Some ''overloaded'')), Event (model_complete ''zhipu'' 30 None None),
      Event (model_complete ''kimi'' 42 None None)])) = Some ''overloaded'' \<and>
   map_option status (worker (run_trace (\<lambda>x. x) [''zhipu'', ''kimi''] (started_run (\<lambda>i. 0) [''zhipu'', ''kimi''])
     [Event (error_event (Some ''overloaded'')), Event (model_complete ''zhipu'' 30 None None),
      Event (model_complete ''kimi'' 42 None None)]) ''zhipu'') = Some Completed \<and>
   map_option status (worker (run_trace (\<lambda>x. x) [''zhipu'', ''kimi''] (started_run (\<lambda>i. 0) [''zhipu'', ''kimi''])
     [Event (error_event (Some ''overloaded'')), Event (model_complete ''zhipu'' 30 None None),
      Event (model_complete ''kimi'' 42 None None)]) ''kimi'') = Some Completed"
proof -
  have rd: "reading (started_run (\<lambda>i. 0) [''zhipu'', ''kimi''])"
    by (simp add: started_run_def)
  have st: "state (occur (\<lambda>x. x) [''zhipu'', ''kimi''] (started_run (\<lambda>i. 0) [''zhipu'', ''kimi''])
      (Event (error_event (Some ''overloaded'')))) =
     handle_event (error_event (Some ''overloaded'')) (state (started_run (\<lambda>i. 0) [''zhipu'', ''kimi'']))"
    using rd by simp
  show ?thesis
    using error_event_sets_run_error [OF rd, of "\<lambda>x. x" "[''zhipu'', ''kimi'']" "Some ''overloaded''"
        "''zhipu''" 30 None None "''kimi''" 42 None None]
    by (auto simp: run_trace_def rd model_complete_errorMessage or_string_def)
qed

subsection \<open>Early results\<close>

lemma handle_event_earlyResults:
  "earlyResults (handle_event evt s) =
     (case evt of
        model_complete m el sm (Some res) \<Rightarrow> filter (\<lambda>r'. model r' \<noteq> m) (earlyResults s) @ [res]
      | _ \<Rightarrow> earlyResults s)"
  by (cases evt) (auto split: option.splits)

lemma distinct_upsert:
  "distinct (map model rs) \<Longrightarrow>
   distinct (map model (filter (\<lambda>r'. model r' \<noteq> model res) rs @ [res]))"
  by (induction rs) auto

lemma runComparison_catch_earlyResults:
  "earlyResults (runComparison_catch models ex s) = earlyResults s"
  by (cases ex) (simp_all add: runComparison_catch_def)

lemma occur_earlyResults:
  "earlyResults (state (occur rnd models r oc)) =
     (case oc of
        Event evt \<Rightarrow> if reading r then earlyResults (handle_event evt (state r))
                     else earlyResults (state r)
      | _ \<Rightarrow> earlyResults (state r))"
  by (cases oc)
    (simp_all add: interval_tick_def read_done_def reader_cancel_def refresh_settled_def
      fetchComparisonData_begin_def fetchComparisonData_settle_def stopComparison_def
      runComparison_catch_earlyResults split: fetch_outcome.splits)

lemma occur_keeps_distinct:
  assumes "distinct (map model (earlyResults (state r)))"
    and "\<forall>m el sm res. oc = Event (model_complete m el sm (Some res)) \<longrightarrow> model res = m"
  shows "distinct (map model (earlyResults (state (occur rnd models r oc))))"
proof (cases oc)
  case (Event evt)
  show ?thesis
  proof (cases evt)
    case (model_complete m el sm ro)
    show ?thesis
    proof (cases ro)
      case None
      then show ?thesis using assms(1) Event model_complete by simp
    next
      case (Some res)
      then have "model res = m" using assms(2) Event model_complete by simp
      then show ?thesis
        using distinct_upsert [OF assms(1), of res] Event model_complete Some assms(1)
        by simp
    qed
  qed (use assms(1) Event in simp_all)
qed (use assms(1) in \<open>simp_all only: occur_earlyResults occurrence.case\<close>)

text \<open>
  Two \<open>model_complete\<close> events for worker \<open>a\<close>, each with a full result whose
  \<open>model\<close> field is \<open>b\<close>: the filter compares the entries' \<open>model\<close> field with
  the event's worker, removes nothing, and the list holds both results.
\<close>

theorem early_results_counterexample:
  "map model (earlyResults (state (run_trace (\<lambda>x. x) [''a'', ''b''] (started_run (\<lambda>i. 0) [''a'', ''b''])
     [Event (model_complete ''a'' 1 None
        (Some \<lparr>model = ''b'', duration = 1,
               stage_timings = \<lparr>clarification = 0, research_brief = 0,
                                research_execution = 1, final_report = 0\<rparr>,
               sources_found = 2, word_count = 300, success = True, error = None,
               report_content = ''report'', supervisor_tools_used = []\<rparr>)),
      Event (model_complete ''a'' 2 None
        (Some \<lparr>model = ''b'', duration = 1,
               stage_timings = \<lparr>clarification = 0, research_brief = 0,
                                research_execution = 1, final_report = 0\<rparr>,
               sources_found = 2, word_count = 300, success = True, error = None,
               report_content = ''report'', supervisor_tools_used = []\<rparr>))]))) = [''b'', ''b'']"
  by (simp add: run_trace_def started_run_def runComparison_start_def)

text \<open>
  Claim C7, amended. Over any run in which every \<open>model_complete\<close> event that carries a
  full result carries one whose \<open>model\<close> field is the event's worker, the early results
  keep at most one entry per worker: such an event removes the entries of its worker and
  appends the new result, and the other entries keep their order.
\<close>

theorem early_results_one_per_worker:
  assumes "distinct (map model (earlyResults (state r)))"
    and "\<forall>m el sm res. Event (model_complete m el sm (Some res)) \<in> set os \<longrightarrow> model res = m"
  shows "distinct (map model (earlyResults (state (run_trace rnd models r os)))) \<and>
         earlyResults (handle_event (model_complete w el' sm' (Some res')) s) =
           filter (\<lambda>r'. model r' \<noteq> w) (earlyResults s) @ [res']"
proof -
  have "distinct (map model (earlyResults (state (foldl (occur rnd models) r os))))"
    using assms
  proof (induction os arbitrary: r)
    case Nil
    then show ?case by simp
  next
    case (Cons oc os)
    have "distinct (map model (earlyResults (state (occur rnd models r oc))))"
      using occur_keeps_distinct [OF Cons.prems(1), of oc rnd models] Cons.prems(2) by simp
    then show ?case
      using Cons.IH [of "occur rnd models r oc"] Cons.prems(2) by simp
  qed
  then show ?thesis by (simp add: run_trace_def)
qed

theorem early_results_one_per_worker_witness:
  "distinct (map model (earlyResults (state (run_trace (\<lambda>x. x) [''a'', ''b''] (started_run (\<lambda>i. 0) [''a'', ''b''])
     [Event (model_complete ''a'' 1 None
        (Some \<lparr>model = ''a'', duration = 1,
               stage_timings = \<lparr>clarification = 0, research_brief = 0,
                                research_execution = 1, final_report = 0\<rparr>,
               sources_found = 2, word_count = 300, success = True, error = None,
               report_content = ''first'', supervisor_tools_used = []\<rparr>)),
      Tick (\<lambda>i. 1000),
      Event (model_complete ''a'' 2 None
        (Some \<lparr>model = ''a'', duration = 2,
               stage_timings = \<lparr>clarification = 0, research_brief = 0,
                                research_execution = 2, final_report = 0\<rparr>,
               sources_found = 3, word_count = 400, success = True, error = None,
               report_content = ''second'', supervisor_tools_used = []\<rparr>))]))))"
proof -
  have d: "distinct (map model (earlyResults (state (started_run (\<lambda>i. 0) [''a'', ''b'']))))"
    by (simp add: started_run_def runComparison_start_def)
  show ?thesis
    by (rule conjunct1 [OF early_results_one_per_worker [OF d]]) auto
qed

subsection \<open>Stop\<close>

lemma runComparison_catch_AbortError:
  "runComparison_catch models AbortError s = s\<lparr>abortController := False, isRunning := False\<rparr>"
  by (simp add: runComparison_catch_def)

lemma stopComparison_worker:
  "obj_get (modelProgress (stopComparison s)) w = map_option stop_entry (obj_get (modelProgress s) w)"
  by (simp add: stopComparison_def obj_get_map_values)

lemma stopComparison_keys:
  "obj_keys (modelProgress (stopComparison s)) = obj_keys (modelProgress s)"
  by (simp add: stopComparison_def obj_keys_def case_prod_beta comp_def)

text \<open>
  Claim C5. Stop, pressed at any moment: every worker that is \<open>Running\<close> or \<open>Pending\<close>
  becomes \<open>Failed\<close> with the stage \<^verbatim>\<open>Stopped by user\<close> and is otherwise unchanged, every
  other entry (a \<open>Completed\<close> one, a \<open>Failed\<close> one) is unchanged, no key is added or
  removed, the run is not running and reads no more, and the run-level error is what it
  was: the abort that stop causes is caught and not reported.
\<close>

theorem stop_fails_unfinished_workers:
  "worker (occur rnd models r UserStop) w =
     (case worker r w of
        None \<Rightarrow> None
      | Some e \<Rightarrow>
          Some (if status e = Running \<or> status e = Pending
                then e\<lparr>status := Failed, stage := ''Stopped by user''\<rparr> else e)) \<and>
   obj_keys (modelProgress (state (occur rnd models r UserStop))) =
     obj_keys (modelProgress (state r)) \<and>
   isRunning (state (occur rnd models r UserStop)) = False \<and>
   reading (occur rnd models r UserStop) = False \<and>
   errorMessage (state (occur rnd models r UserStop)) = errorMessage (state r)"
proof -
  have w: "obj_get (modelProgress (state (occur rnd models r UserStop))) w =
        map_option stop_entry (obj_get (modelProgress (state r)) w)"
    by (simp add: runComparison_catch_AbortError stopComparison_worker)
  have k: "obj_keys (modelProgress (state (occur rnd models r UserStop))) =
        obj_keys (modelProgress (state r))"
    by (simp add: runComparison_catch_AbortError stopComparison_keys)
  have rest: "isRunning (state (occur rnd models r UserStop)) = False \<and>
      reading (occur rnd models r UserStop) = False \<and>
      errorMessage (state (occur rnd models r UserStop)) = errorMessage (state r)"
    by (simp add: runComparison_catch_AbortError stopComparison_def)
  show ?thesis
    using w k rest by (simp add: worker_def stop_entry_def split: option.splits)
qed

text \<open>
  Stop while two of three workers are \<open>Running\<close> and one is \<open>Completed\<close>.
\<close>

theorem stop_fails_unfinished_workers_witness:
  "map_option status (worker (occur (\<lambda>x. x) [''zhipu'', ''deepseek'', ''kimi'']
     (run_trace (\<lambda>x. x) [''zhipu'', ''deepseek'', ''kimi'']
        (started_run (\<lambda>i. 0) [''zhipu'', ''deepseek'', ''kimi''])
        [Event (model_complete ''deepseek'' 20 None None)]) UserStop) ''deepseek'') = Some Completed \<and>
   map_option (\<lambda>e. (status e, stage e)) (worker (occur (\<lambda>x. x) [''zhipu'', ''deepseek'', ''kimi'']
     (run_trace (\<lambda>x. x) [''zhipu'', ''deepseek'', ''kimi'']
        (started_run (\<lambda>i. 0) [''zhipu'', ''deepseek'', ''kimi''])
        [Event (model_complete ''deepseek'' 20 None None)]) UserStop) ''zhipu'') =
     Some (Failed, ''Stopped by user'') \<and>
   map_option (\<lambda>e. (status e, stage e)) (worker (occur (\<lambda>x. x) [''zhipu'', ''deepseek'', ''kimi'']
     (run_trace (\<lambda>x. x) [''zhipu'', ''deepseek'', ''kimi'']
        (started_run (\<lambda>i. 0) [''zhipu'', ''deepseek'', ''kimi''])
        [Event (model_complete ''deepseek'' 20 None None)]) UserStop) ''kimi'') =
     Some (Failed, ''Stopped by user'')"
proof -
  let ?r = "run_trace (\<lambda>x. x) [''zhipu'', ''deepseek'', ''kimi'']
        (started_run (\<lambda>i. 0) [''zhipu'', ''deepseek'', ''kimi''])
        [Event (model_complete ''deepseek'' 20 None None)]"
  have mp: "modelProgress (state ?r) =
      [(''zhipu'', \<lparr>stage = ''Running research...'', startTime = Some 0,
                    currentDuration = Some (Num 0), progress = 0, status = Running,
                    resultSummary = None\<rparr>),
       (''deepseek'', \<lparr>stage = ''Completed'', startTime = Some 0,
                    currentDuration = Some (Num 20), progress = 100, status = Completed,
                    resultSummary = None\<rparr>),
       (''kimi'', \<lparr>stage = ''Running research...'', startTime = Some 0,
                    currentDuration = Some (Num 0), progress = 0, status = Running,
                    resultSummary = None\<rparr>)]"
    by (simp add: run_trace_def started_run_def runComparison_start_def start_tracking_def
        obj_set_def obj_get_def spread_entry_def array_index_def digit_val_def)
  show ?thesis
    using stop_fails_unfinished_workers [of "\<lambda>x. x" "[''zhipu'', ''deepseek'', ''kimi'']" ?r "''deepseek''"]
      stop_fails_unfinished_workers [of "\<lambda>x. x" "[''zhipu'', ''deepseek'', ''kimi'']" ?r "''zhipu''"]
      stop_fails_unfinished_workers [of "\<lambda>x. x" "[''zhipu'', ''deepseek'', ''kimi'']" ?r "''kimi''"]
    unfolding worker_def mp by (simp add: obj_get_def)
qed

subsection \<open>The interval\<close>

lemma tick_entries_nth:
  "i < length obj \<Longrightarrow>
   tick_entries rnd clock j obj ! i =
     (fst (obj ! i), tick_entry rnd (clock (j + i)) (j + i) (snd (obj ! i)))"
proof (induction obj arbitrary: i j)
  case Nil
  then show ?case by simp
next
  case (Cons kv obj)
  obtain k e where kv: "kv = (k, e)" by (cases kv)
  show ?case
  proof (cases i)
    case 0
    then show ?thesis using kv by simp
  next
    case (Suc i')
    then show ?thesis using Cons.IH [of i' "Suc j"] Cons.prems kv by simp
  qed
qed


lemma obj_get_tick_entries_Some:
  "obj_get obj k = Some e \<Longrightarrow>
     \<exists>j. obj_get (tick_entries rnd clock i obj) k = Some (tick_entry rnd (clock j) j e)"
proof (induction obj arbitrary: i)
  case Nil
  then show ?case by (simp add: obj_get_def)
next
  case (Cons kv obj)
  obtain k' e' where kv: "kv = (k', e')" by (cases kv)
  show ?case
  proof (cases "k' = k")
    case True
    then have "obj_get (tick_entries rnd clock i (kv # obj)) k = Some (tick_entry rnd (clock i) i e)"
      using Cons.prems kv by (simp add: obj_get_def)
    then show ?thesis by blast
  next
    case False
    then have "obj_get obj k = Some e"
      using Cons.prems kv by (simp add: obj_get_def)
    then obtain j where "obj_get (tick_entries rnd clock (Suc i) obj) k = Some (tick_entry rnd (clock j) j e)"
      using Cons.IH [of "Suc i"] by blast
    then have "obj_get (tick_entries rnd clock i (kv # obj)) k = Some (tick_entry rnd (clock j) j e)"
      using False kv by (simp add: obj_get_def)
    then show ?thesis by blast
  qed
qed

lemma tick_entry_progress_mono: "progress e \<le> progress (tick_entry rnd now i e)"
  by (simp add: tick_entry_def Let_def split: option.splits)

lemma tick_entry_not_running: "status e \<noteq> Running \<Longrightarrow> tick_entry rnd now i e = e"
  by (simp add: tick_entry_def)

text \<open>
  The first tick of a run, one second after its start, with exact arithmetic: the
  worker at index 0 has waited less than its delay of two seconds and keeps the progress
  0, where the formula of the claim gives 1.
\<close>

theorem tick_counterexample:
  "map_option progress
     (worker (occur (\<lambda>x. x) [''zhipu''] (started_run (\<lambda>i. 0) [''zhipu'']) (Tick (\<lambda>i. 1000)))
        ''zhipu'') = Some 0 \<and>
   max (0::rat) (min 15 (1 + of_int \<lfloor>max 0 (1000 / 1000 - (2 + 12 / 10 * 0)) * (35 / 100 + 12 / 100 * 0 :: rat)\<rfloor>)) = 1"
  by (simp add: worker_def started_run_def runComparison_start_def start_tracking_def
      interval_tick_def tick_entry_def modelDelay_def modelRate_def
      obj_set_def obj_get_def spread_entry_def array_index_def digit_val_def)

text \<open>
  Claim C6, amended. On a tick, a \<open>Running\<close> worker at index \<open>i\<close> of the progress
  map's keys, with a start time and a progress below 15, gets the elapsed time as its
  duration; once the elapsed time exceeds the delay \<open>2 + 1.2 i\<close> its progress becomes
  \<open>max(progress, min(15, 1 + floor((elapsed - delay) (0.35 + 0.12 i))))\<close>, and until
  then its progress is unchanged. The new progress is at most 15. This holds for any
  rounding of the arithmetic; with none, the delay and the rate are the stated ones.
\<close>

theorem tick_sets_synthetic_progress:
  assumes "i < length (modelProgress s)"
    and "modelProgress s ! i = (k, e)"
    and "status e = Running"
    and "startTime e = Some t"
    and "progress e < 15"
  shows "(let elapsed = rnd (of_int (clock i - t) / 1000);
              adjustedElapsed = max 0 (rnd (elapsed - modelDelay rnd i))
          in modelProgress (interval_tick rnd clock s) ! i =
               (k, e\<lparr>currentDuration := Some (Num elapsed),
                     progress :=
                       (if adjustedElapsed > 0
                        then max (progress e)
                               (min 15 (rnd (1 + of_int \<lfloor>rnd (adjustedElapsed * modelRate rnd i)\<rfloor>)))
                        else progress e)\<rparr>)) \<and>
         progress (snd (modelProgress (interval_tick rnd clock s) ! i)) \<le> 15 \<and>
         modelDelay (\<lambda>x. x) i = 2 + 12 / 10 * of_nat i \<and>
         modelRate (\<lambda>x. x) i = 35 / 100 + 12 / 100 * of_nat i"
proof -
  have nth: "modelProgress (interval_tick rnd clock s) ! i = (k, tick_entry rnd (clock i) i e)"
    using tick_entries_nth [OF assms(1), of rnd clock 0] assms(2) by (simp add: interval_tick_def)
  have le: "progress (tick_entry rnd (clock i) i e) \<le> 15"
    using assms(3,4,5) by (simp add: tick_entry_def Let_def)
  have eq: "tick_entry rnd (clock i) i e =
      (let elapsed = rnd (of_int (clock i - t) / 1000);
           adjustedElapsed = max 0 (rnd (elapsed - modelDelay rnd i))
       in e\<lparr>currentDuration := Some (Num elapsed),
             progress :=
               (if adjustedElapsed > 0
                then max (progress e)
                       (min 15 (rnd (1 + of_int \<lfloor>rnd (adjustedElapsed * modelRate rnd i)\<rfloor>)))
                else progress e)\<rparr>)"
    using assms(3,4,5) by (auto simp: tick_entry_def Let_def)
  have dr: "modelDelay (\<lambda>x. x) i = 2 + 12 / 10 * of_nat i \<and>
         modelRate (\<lambda>x. x) i = 35 / 100 + 12 / 100 * of_nat i"
    by (simp add: modelDelay_def modelRate_def)
  show ?thesis
    using nth le eq dr by (simp add: Let_def)
qed

theorem tick_sets_synthetic_progress_witness:
  "progress (snd (modelProgress (interval_tick (\<lambda>x. x) (\<lambda>i. 10000)
      (state (started_run (\<lambda>i. 0) [''zhipu'', ''deepseek''])))  ! 1)) = 4"
proof -
  have mp: "modelProgress (state (started_run (\<lambda>i. 0) [''zhipu'', ''deepseek''])) =
      [(''zhipu'', \<lparr>stage = ''Running research...'', startTime = Some 0,
                    currentDuration = Some (Num 0), progress = 0, status = Running,
                    resultSummary = None\<rparr>),
       (''deepseek'', \<lparr>stage = ''Running research...'', startTime = Some 0,
                    currentDuration = Some (Num 0), progress = 0, status = Running,
                    resultSummary = None\<rparr>)]"
    by (simp add: started_run_def runComparison_start_def start_tracking_def
        obj_set_def obj_get_def spread_entry_def array_index_def digit_val_def)
  show ?thesis
    using tick_sets_synthetic_progress [of 1 "state (started_run (\<lambda>i. 0) [''zhipu'', ''deepseek''])"
        "''deepseek''" "\<lparr>stage = ''Running research...'', startTime = Some 0,
                    currentDuration = Some (Num 0), progress = 0, status = Running,
                    resultSummary = None\<rparr>" 0 "\<lambda>x. x" "\<lambda>i. 10000"]
    by (simp add: mp Let_def modelDelay_def modelRate_def floor_eq_iff)
qed

subsection \<open>Progress over a run\<close>

lemma spread_entry_fields:
  "stage (spread_entry old stg p st) = stg"
  "progress (spread_entry old stg p st) = p"
  "status (spread_entry old stg p st) = st"
  by (simp_all add: spread_entry_def split: option.splits)

lemma interval_tick_worker:
  assumes "obj_get (modelProgress s) w = Some e"
  shows "\<exists>j. obj_get (modelProgress (interval_tick rnd clock s)) w = Some (tick_entry rnd (clock j) j e)"
  using obj_get_tick_entries_Some [OF assms, of rnd clock 0] by (simp add: interval_tick_def)

lemma read_done_modelProgress:
  "modelProgress (state (read_done r)) = modelProgress (state r)"
  "modelProgress (state (reader_cancel r)) = modelProgress (state r)"
  by (simp_all add: read_done_def reader_cancel_def fetchComparisonData_begin_def)

lemma refresh_settled_modelProgress: "modelProgress (refresh_settled fo s) = modelProgress s"
  by (cases fo) (simp_all add: refresh_settled_def fetchComparisonData_settle_def)

lemma occur_progress_mono:
  assumes "worker r w = Some e"
    and "case oc of
           Tick clock \<Rightarrow> True
         | Event (model_progress m stg el p) \<Rightarrow> (if m = w then progress e \<le> p else True)
         | _ \<Rightarrow> False"
  shows "\<exists>e'. worker (occur rnd models r oc) w = Some e' \<and> progress e \<le> progress e'"
proof (cases oc)
  case (Tick clock)
  show ?thesis
  proof (cases "isRunning (state r)")
    case True
    obtain j where "obj_get (modelProgress (interval_tick rnd clock (state r))) w =
        Some (tick_entry rnd (clock j) j e)"
      using interval_tick_worker [of "state r" w e rnd clock] assms(1) by (auto simp: worker_def)
    then show ?thesis
      using True Tick tick_entry_progress_mono [of e rnd "clock j" j] by (simp add: worker_def)
  next
    case False
    then show ?thesis using Tick assms(1) by simp
  qed
next
  case (Event evt)
  then obtain m stg el p where evt: "evt = model_progress m stg el p"
    using assms(2) by (cases evt) simp_all
  show ?thesis
  proof (cases "reading r")
    case True
    show ?thesis
    proof (cases "m = w")
      case True
      then have "progress e \<le> p" using assms(2) Event evt by simp
      then show ?thesis
        using \<open>reading r\<close> True Event evt assms(1)
        by (simp add: worker_def obj_get_obj_set spread_entry_def)
    next
      case False
      then show ?thesis
        using \<open>reading r\<close> Event evt assms(1) by (simp add: worker_def obj_get_obj_set)
    qed
  next
    case False
    then show ?thesis using Event assms(1) by simp
  qed
qed (use assms(2) in simp_all)

text \<open>
  Two \<open>model_progress\<close> events for one worker, reporting 40 and then 20: the worker
  shows 40 and then 20.
\<close>

theorem progress_counterexample:
  "map_option progress (worker (run_trace (\<lambda>x. x) [''zhipu''] (started_run (\<lambda>i. 0) [''zhipu''])
      [Event (model_progress ''zhipu'' ''Searching'' 5 40)]) ''zhipu'') = Some 40 \<and>
   map_option progress (worker (run_trace (\<lambda>x. x) [''zhipu''] (started_run (\<lambda>i. 0) [''zhipu''])
      [Event (model_progress ''zhipu'' ''Searching'' 5 40),
       Event (model_progress ''zhipu'' ''Searching'' 6 20)]) ''zhipu'') = Some 20"
  by (simp add: run_trace_def worker_def started_run_def obj_get_obj_set spread_entry_fields)

text \<open>
  Claim C1, amended. A \<open>model_progress\<close> event sets the worker's progress to the value
  the server reports, and a tick never lowers it. So over any interleaving of ticks and
  \<open>model_progress\<close> events in which no event reports less than the worker shows when it
  arrives, the worker's progress at the end is at least its progress at the start.
\<close>

theorem progress_never_lowered:
  assumes "worker r w = Some e"
    and "reports_at_least rnd models w r os"
  shows "(\<exists>e'. worker (run_trace rnd models r os) w = Some e' \<and> progress e \<le> progress e') \<and>
         (reading r \<longrightarrow>
            map_option progress (worker (occur rnd models r (Event (model_progress w stg el p))) w) =
              Some p)"
proof -
  have "\<exists>e'. worker (foldl (occur rnd models) r os) w = Some e' \<and> progress e \<le> progress e'"
    using assms
  proof (induction os arbitrary: r e)
    case Nil
    then show ?case by simp
  next
    case (Cons oc os)
    have ok: "case oc of
           Tick clock \<Rightarrow> True
         | Event (model_progress m stg el p) \<Rightarrow> (if m = w then progress e \<le> p else True)
         | _ \<Rightarrow> False"
      using Cons.prems by (auto split: occurrence.splits sse_event.splits)
    obtain e1 where e1: "worker (occur rnd models r oc) w = Some e1" "progress e \<le> progress e1"
      using occur_progress_mono [OF Cons.prems(1) ok, of rnd models] by blast
    obtain e' where "worker (foldl (occur rnd models) (occur rnd models r oc) os) w = Some e'"
      "progress e1 \<le> progress e'"
      using Cons.IH [OF e1(1)] Cons.prems(2) by auto
    then show ?case using e1(2) by auto
  qed
  then show ?thesis
    by (simp add: run_trace_def worker_def obj_get_obj_set spread_entry_fields)
qed

theorem progress_never_lowered_witness:
  "\<exists>e'. worker (run_trace (\<lambda>x. x) [''zhipu''] (started_run (\<lambda>i. 0) [''zhipu''])
      [Tick (\<lambda>i. 1000), Event (model_progress ''zhipu'' ''Searching'' 5 40), Tick (\<lambda>i. 6000),
       Event (model_progress ''zhipu'' ''Writing'' 9 70)]) ''zhipu'' = Some e' \<and>
      0 \<le> progress e'"
proof -
  have w0: "worker (started_run (\<lambda>i. 0) [''zhipu'']) ''zhipu'' =
      Some \<lparr>stage = ''Running research...'', startTime = Some 0,
            currentDuration = Some (Num 0), progress = 0, status = Running,
            resultSummary = None\<rparr>"
    by (simp add: worker_def started_run_def runComparison_start_def start_tracking_def
        obj_set_def obj_get_def spread_entry_def array_index_def digit_val_def)
  have ok: "reports_at_least (\<lambda>x. x) [''zhipu''] ''zhipu'' (started_run (\<lambda>i. 0) [''zhipu''])
      [Tick (\<lambda>i. 1000), Event (model_progress ''zhipu'' ''Searching'' 5 40), Tick (\<lambda>i. 6000),
       Event (model_progress ''zhipu'' ''Writing'' 9 70)]"
    by (simp add: worker_def started_run_def runComparison_start_def start_tracking_def
        interval_tick_def tick_entry_def modelDelay_def modelRate_def
        obj_set_def obj_get_def spread_entry_def array_index_def digit_val_def)
  show ?thesis
    using progress_never_lowered [OF w0 ok] by simp
qed


subsection \<open>Terminal states\<close>

lemma stop_entry_not_running:
  "status e \<noteq> Running \<Longrightarrow> status e \<noteq> Pending \<Longrightarrow> stop_entry e = e"
  by (simp add: stop_entry_def)

lemma occur_keeps_completed:
  assumes "worker r w = Some e" and "progress e = 100" and "status e = Completed"
    and "leaves_alone w oc"
  shows "\<exists>e'. worker (occur rnd models r oc) w = Some e' \<and> progress e' = 100 \<and> status e' = Completed"
proof (cases oc)
  case (Event evt)
  show ?thesis
  proof (cases "reading r")
    case True
    have "\<exists>e'. obj_get (modelProgress (handle_event evt (state r))) w = Some e' \<and>
        progress e' = 100 \<and> status e' = Completed"
    proof (cases evt)
      case (model_complete m el sm res)
      then show ?thesis
        using model_complete_keeps_completed [of "state r" w e m el sm res] assms(1,2,3)
        by (simp add: worker_def)
    qed (use assms Event in \<open>simp_all add: worker_def obj_get_obj_set\<close>)
    then show ?thesis using True Event by (simp add: worker_def)
  next
    case False
    then show ?thesis using Event assms(1,2,3) by simp
  qed
next
  case (Tick clock)
  show ?thesis
  proof (cases "isRunning (state r)")
    case True
    obtain j where "obj_get (modelProgress (interval_tick rnd clock (state r))) w =
        Some (tick_entry rnd (clock j) j e)"
      using interval_tick_worker [of "state r" w e rnd clock] assms(1) by (auto simp: worker_def)
    then show ?thesis
      using True Tick assms(2,3) tick_entry_not_running [of e rnd "clock j" j]
      by (simp add: worker_def)
  next
    case False
    then show ?thesis using Tick assms(1,2,3) by simp
  qed
next
  case StreamTimeout
  then show ?thesis using assms(1,2,3) by (simp add: worker_def read_done_modelProgress)
next
  case StreamClosed
  then show ?thesis using assms(1,2,3) by (simp add: worker_def read_done_modelProgress)
next
  case (RefreshSettles fo)
  then show ?thesis using assms(1,2,3) by (simp add: worker_def refresh_settled_modelProgress)
next
  case UserStop
  then show ?thesis
    using assms(1,2,3) stop_entry_not_running [of e]
    by (simp add: worker_def runComparison_catch_AbortError stopComparison_worker)
next
  case (ReadFails ex)
  then show ?thesis
    using assms by (simp add: worker_def runComparison_catch_AbortError)
qed

text \<open>
  A \<open>model_progress\<close> event for a worker that has completed: the worker is \<open>Running\<close>
  again, at the progress of the event.
\<close>

theorem completed_counterexample:
  "map_option (\<lambda>e. (status e, progress e))
     (worker (run_trace (\<lambda>x. x) [''zhipu''] (started_run (\<lambda>i. 0) [''zhipu''])
        [Event (model_complete ''zhipu'' 30 None None)]) ''zhipu'') = Some (Completed, 100) \<and>
   map_option (\<lambda>e. (status e, progress e))
     (worker (run_trace (\<lambda>x. x) [''zhipu''] (started_run (\<lambda>i. 0) [''zhipu''])
        [Event (model_complete ''zhipu'' 30 None None),
         Event (model_progress ''zhipu'' ''Writing'' 31 50)]) ''zhipu'') = Some (Running, 50)"
  by (simp add: run_trace_def worker_def started_run_def obj_get_obj_set spread_entry_fields)

text \<open>
  Claim C2, amended. After a \<open>model_complete\<close> event for worker \<open>w\<close>, handled while the
  loop reads, \<open>w\<close> is \<open>Completed\<close> at progress 100, and it stays so over every later
  event that is not a \<open>model_progress\<close> or \<open>model_error\<close> event for \<open>w\<close>, every tick,
  stop, and the end of the stream.
\<close>

theorem completed_stays_completed:
  assumes "reading r"
    and "\<forall>oc \<in> set os. leaves_alone w oc"
  shows "\<exists>e. worker (run_trace rnd models r (Event (model_complete w el sm res) # os)) w = Some e \<and>
             progress e = 100 \<and> status e = Completed"
proof -
  let ?r1 = "occur rnd models r (Event (model_complete w el sm res))"
  obtain e1 where e1: "worker ?r1 w = Some e1" "progress e1 = 100" "status e1 = Completed"
    using model_complete_status [of w el sm res "state r"] assms(1) by (auto simp: worker_def)
  have "\<exists>e. worker (foldl (occur rnd models) r1 os) w = Some e \<and> progress e = 100 \<and> status e = Completed"
    if "worker r1 w = Some e1'" "progress e1' = 100" "status e1' = Completed" for r1 e1'
    using that assms(2)
  proof (induction os arbitrary: r1 e1')
    case Nil
    then show ?case by simp
  next
    case (Cons oc os)
    obtain e2 where "worker (occur rnd models r1 oc) w = Some e2" "progress e2 = 100" "status e2 = Completed"
      using occur_keeps_completed [OF Cons.prems(1,2,3), of oc rnd models] Cons.prems(4) by auto
    then show ?case using Cons.IH [of "occur rnd models r1 oc" e2] Cons.prems(4) by simp
  qed
  from this [OF e1] show ?thesis by (simp add: run_trace_def)
qed

theorem completed_stays_completed_witness:
  "\<exists>e. worker (run_trace (\<lambda>x. x) [''zhipu'', ''kimi''] (started_run (\<lambda>i. 0) [''zhipu'', ''kimi''])
      [Event (model_complete ''zhipu'' 30 None None), Tick (\<lambda>i. 31000),
       Event (model_progress ''kimi'' ''Writing'' 31 80), Event (model_complete ''zhipu'' 32 None None),
       Event (error_event (Some ''late'')), UserStop, Event (model_error ''kimi'' None None None)])
      ''zhipu'' = Some e \<and> progress e = 100 \<and> status e = Completed"
proof -
  have rd: "reading (started_run (\<lambda>i. 0) [''zhipu'', ''kimi''])"
    by (simp add: started_run_def)
  show ?thesis
    by (rule completed_stays_completed [OF rd]) simp
qed

subsection \<open>The stream timeout\<close>










end
